theory Spec2Isabelle
  imports Main
begin

section \<open>Strings and character classes\<close>

text \<open>
  Both source files (\<^verbatim>\<open>main.py\<close> and \<^verbatim>\<open>finbert.py\<close>) contain the same
  \<^verbatim>\<open>get_technologies\<close> and \<^verbatim>\<open>find_context\<close>; they differ in the classification
  backend and in \<^verbatim>\<open>main\<close>.

  A Python \<^verbatim>\<open>str\<close> is a sequence of code points. It is modelled as a \<^typ>\<open>string\<close>
  whose characters are the code points 0..255 (the Latin-1 block), so \<^const>\<open>length\<close>
  counts what \<^verbatim>\<open>len\<close> counts. The three character functions below are Python's on
  that block: \<^verbatim>\<open>\w\<close> of the \<^verbatim>\<open>re\<close> module for \<^verbatim>\<open>str\<close> patterns (alphanumeric
  code points and the underscore), \<^verbatim>\<open>\s\<close> / \<^verbatim>\<open>str.strip()\<close> whitespace, and the
  simple lower-case mapping that \<^verbatim>\<open>re.IGNORECASE\<close> compares by.
\<close>

definition is_word :: "char \<Rightarrow> bool" where
  "is_word c =
     (let n = (of_char c :: nat)
      in (48 \<le> n \<and> n \<le> 57) \<or> (65 \<le> n \<and> n \<le> 90) \<or> n = 95 \<or> (97 \<le> n \<and> n \<le> 122)
         \<or> n = 170 \<or> n = 178 \<or> n = 179 \<or> n = 181 \<or> n = 185 \<or> n = 186
         \<or> (188 \<le> n \<and> n \<le> 190) \<or> (192 \<le> n \<and> n \<le> 214) \<or> (216 \<le> n \<and> n \<le> 246)
         \<or> 248 \<le> n)"

definition is_space :: "char \<Rightarrow> bool" where
  "is_space c =
     (let n = (of_char c :: nat)
      in (9 \<le> n \<and> n \<le> 13) \<or> (28 \<le> n \<and> n \<le> 32) \<or> n = 133 \<or> n = 160)"

definition lower :: "char \<Rightarrow> char" where
  "lower c =
     (let n = (of_char c :: nat)
      in if (65 \<le> n \<and> n \<le> 90) \<or> (192 \<le> n \<and> n \<le> 214) \<or> (216 \<le> n \<and> n \<le> 222)
         then char_of (n + 32) else c)"

text \<open>\<^verbatim>\<open>s.strip()\<close>: whitespace removed at both ends.\<close>

definition strip :: "string \<Rightarrow> string" where
  "strip s = rev (dropWhile is_space (rev (dropWhile is_space s)))"

text \<open>\<^verbatim>\<open>s.split(sep)\<close> for a one-character separator: always at least one piece.\<close>

fun split :: "char \<Rightarrow> string \<Rightarrow> string list" where
  "split sep [] = [[]]"
| "split sep (c # cs) =
     (if c = sep then [] # split sep cs
      else (case split sep cs of
              [] \<Rightarrow> [[c]]
            | piece # pieces \<Rightarrow> (c # piece) # pieces))"

text \<open>
  \<^verbatim>\<open>document[start:end]\<close> for integer bounds: a negative bound counts from the end,
  every bound is clipped to the string, and a stop before the start gives the empty string.
\<close>

definition py_slice :: "'a list \<Rightarrow> int \<Rightarrow> int \<Rightarrow> 'a list" where
  "py_slice xs start stop =
     (let n = int (length xs);
          adjust = (\<lambda>i. if i < 0 then max 0 (i + n) else min i n);
          s = adjust start;
          e = adjust stop
      in take (nat (e - s)) (drop (nat s) xs))"

section \<open>Dictionaries in insertion order\<close>

text \<open>
  A Python \<^verbatim>\<open>dict\<close> iterates in insertion order, and the report follows that order, so a
  dictionary is an association list. \<^verbatim>\<open>d[k] = v\<close> replaces the value of a key that is
  present and appends a key that is not.
\<close>

type_synonym ('k, 'v) dict = "('k \<times> 'v) list"

definition keys :: "('k, 'v) dict \<Rightarrow> 'k list" where
  "keys d = map fst d"

fun dict_set :: "'k \<Rightarrow> 'v \<Rightarrow> ('k, 'v) dict \<Rightarrow> ('k, 'v) dict" where
  "dict_set k v [] = [(k, v)]"
| "dict_set k v ((k', v') # d) =
     (if k' = k then (k, v) # d else (k', v') # dict_set k v d)"

section \<open>The synonym map: \<^verbatim>\<open>get_technologies\<close>\<close>

text \<open>
  A cell of the \<^verbatim>\<open>technologies\<close> column as \<^verbatim>\<open>pandas.read_csv\<close> delivers it: text, or
  the float NaN for an empty or missing cell. \<^verbatim>\<open>str\<close> of NaN is the text \<^verbatim>\<open>nan\<close>.
\<close>

datatype cell = Str string | NaN

fun str :: "cell \<Rightarrow> string" where
  "str (Str s) = s"
| "str NaN = ''nan''"

type_synonym synonym_map = "(string, string list) dict"

definition synonym_seed :: synonym_map where
  "synonym_seed =
     [(''Mac'', [''Mac'', ''macOS'', ''MacBook'']),
      (''iPhone'', [''iPhone'', ''iOS'']),
      (''iPad'', [''iPad'', ''iOS'']),
      (''Apple Watch'', [''Apple Watch'', ''watchOS'']),
      (''Apple TV'', [''Apple TV'', ''tvOS'']),
      (''Apple Pay'', [''Apple Pay'']),
      (''iCloud'', [''iCloud'', ''Cloud Computing''])]"

text \<open>
  The first loop:
  \<^verbatim>\<open>for techs in df['technologies']: tech_list.extend([t.strip() for t in str(techs).split(';')])\<close>
\<close>

definition tech_list :: "cell list \<Rightarrow> string list" where
  "tech_list column = concat (map (\<lambda>techs. map strip (split CHR '';'' (str techs))) column)"

text \<open>\<^verbatim>\<open>re.sub(r'[^\w\s]', '', tech).strip()\<close>\<close>

definition normalize :: "string \<Rightarrow> string" where
  "normalize tech = strip (filter (\<lambda>c. is_word c \<or> is_space c) tech)"

text \<open>
  The body of the second loop: a non-empty normalized name that is not a key of the map
  (\<^verbatim>\<open>normalized_tech not in synonym_map\<close> looks at the keys only) is stored with itself
  as its only variation.
\<close>

definition normalize_step :: "synonym_map \<Rightarrow> string \<Rightarrow> synonym_map" where
  "normalize_step synonym_map tech =
     (let normalized_tech = normalize tech
      in if normalized_tech \<noteq> [] \<and> normalized_tech \<notin> set (keys synonym_map)
         then dict_set normalized_tech [normalized_tech] synonym_map
         else synonym_map)"

definition get_technologies :: "cell list \<Rightarrow> synonym_map" where
  "get_technologies column = foldl normalize_step synonym_seed (tech_list column)"

section \<open>Locating mentions: \<^verbatim>\<open>find_context\<close>\<close>

text \<open>
  The pattern is \<^verbatim>\<open>\b\<close>, the escaped variation, \<^verbatim>\<open>\b\<close>, compiled with
  \<^verbatim>\<open>re.IGNORECASE\<close>. \<^verbatim>\<open>\b\<close> holds at a position when exactly one of the characters
  before and after it is a word character, a missing neighbour counting as a non-word
  character. The escaped variation matches its own characters one by one up to case, so a
  match at position \<open>i\<close> spans \<open>i\<close> to \<open>i + len(variation)\<close>.
\<close>

definition word_boundary :: "string \<Rightarrow> nat \<Rightarrow> bool" where
  "word_boundary document i =
     ((0 < i \<and> i \<le> length document \<and> is_word (document ! (i - 1)))
        \<noteq> (i < length document \<and> is_word (document ! i)))"

definition match_at :: "string \<Rightarrow> string \<Rightarrow> nat \<Rightarrow> bool" where
  "match_at variation document i =
     (i + length variation \<le> length document
      \<and> word_boundary document i
      \<and> map lower (take (length variation) (drop i document)) = map lower variation
      \<and> word_boundary document (i + length variation))"

text \<open>
  \<^verbatim>\<open>pattern.finditer(document)\<close>: the spans of the matches from left to right, none
  overlapping an earlier one; after an empty match the scan moves on by one character.
\<close>

function finditer_from :: "string \<Rightarrow> string \<Rightarrow> nat \<Rightarrow> (nat \<times> nat) list" where
  "finditer_from variation document i =
     (if length document < i then []
      else if match_at variation document i
      then (i, i + length variation)
             # finditer_from variation document (i + max 1 (length variation))
      else finditer_from variation document (Suc i))"
  by pat_completeness auto
termination
  by (relation "measure (\<lambda>(variation, document, i). Suc (length document) - i)") auto

definition finditer :: "string \<Rightarrow> string \<Rightarrow> (nat \<times> nat) list" where
  "finditer variation document = finditer_from variation document 0"

text \<open>
  The context of a match:
  \<^verbatim>\<open>start = max(0, match.start() - window); end = min(len(document), match.end() + window)\<close>
  and \<^verbatim>\<open>document[start:end]\<close>.
\<close>

definition context_of :: "string \<Rightarrow> int \<Rightarrow> nat \<times> nat \<Rightarrow> string" where
  "context_of document window m =
     (let start = max 0 (int (fst m) - window);
          end = min (int (length document)) (int (snd m) + window)
      in py_slice document start end)"

type_synonym mentions = "(string, string) dict"

text \<open>
  The loop over the matches of one variation stores the context of the first match and
  breaks, so it reads the head of the match sequence only.
\<close>

definition scan_matches :: "string \<Rightarrow> int \<Rightarrow> string \<Rightarrow> string \<Rightarrow> mentions \<Rightarrow> mentions" where
  "scan_matches document window primary_tech variation mentions =
     (case finditer variation document of
        [] \<Rightarrow> mentions
      | m # _ \<Rightarrow> dict_set primary_tech (context_of document window m) mentions)"

text \<open>
  The loop over the variations of one technology, with its
  \<^verbatim>\<open>if primary_tech in mentions: break\<close> after each variation.
\<close>

fun scan_variations :: "string \<Rightarrow> int \<Rightarrow> string \<Rightarrow> string list \<Rightarrow> mentions \<Rightarrow> mentions" where
  "scan_variations document window primary_tech [] mentions = mentions"
| "scan_variations document window primary_tech (variation # variations) mentions =
     (let mentions' = scan_matches document window primary_tech variation mentions
      in if primary_tech \<in> set (keys mentions') then mentions'
         else scan_variations document window primary_tech variations mentions')"

definition find_context :: "string \<Rightarrow> synonym_map \<Rightarrow> int \<Rightarrow> mentions" where
  "find_context document technologies window =
     foldl (\<lambda>mentions (primary_tech, variations).
              scan_variations document window primary_tech variations mentions)
       [] technologies"

section \<open>The drivers: \<^verbatim>\<open>main\<close>\<close>

text \<open>
  The text extracted from the PDF, the rows of the CSV and the classification backend come
  from outside the program and are parameters here. \<open>None\<close> for a file means that opening
  it raised \<^verbatim>\<open>FileNotFoundError\<close>. A backend returns \<open>Inr\<close> of its analysis or \<open>Inl\<close> of
  the exception it raised. Of the printed output only the lines that carry a result are
  kept; the progress messages are left out.
\<close>

datatype 'r line = FileNotFoundMessage | NoTechnologiesFound | AnalysisOf string 'r

datatype 'e exit = Returned | Raised 'e

text \<open>
  \<^verbatim>\<open>main.py\<close>: each analysis is printed as soon as it is made, and no \<^verbatim>\<open>try\<close> encloses
  the call of \<^verbatim>\<open>analyze_with_openai(context, tech)\<close>.
\<close>

fun analyze_mentions ::
  "(string \<Rightarrow> string \<Rightarrow> 'e + 'r) \<Rightarrow> mentions \<Rightarrow> 'r line list \<Rightarrow> 'r line list \<times> 'e exit" where
  "analyze_mentions analyze [] printed = (printed, Returned)"
| "analyze_mentions analyze ((tech, context) # rest) printed =
     (case analyze context tech of
        Inl e \<Rightarrow> (printed, Raised e)
      | Inr analysis \<Rightarrow> analyze_mentions analyze rest (printed @ [AnalysisOf tech analysis]))"

definition main ::
  "string option \<Rightarrow> cell list option \<Rightarrow> (string \<Rightarrow> string \<Rightarrow> 'e + 'r) \<Rightarrow> 'r line list \<times> 'e exit" where
  "main pdf csv analyze =
     (case pdf of
        None \<Rightarrow> ([FileNotFoundMessage], Returned)
      | Some apple_10q_text \<Rightarrow>
          (case csv of
             None \<Rightarrow> ([FileNotFoundMessage], Returned)
           | Some column \<Rightarrow>
               (let tech_mentions = find_context apple_10q_text (get_technologies column) 500
                in if tech_mentions = [] then ([NoTechnologiesFound], Returned)
                   else analyze_mentions analyze tech_mentions [])))"

text \<open>
  \<^verbatim>\<open>finbert.py\<close>: the results are collected in \<^verbatim>\<open>analysis_results\<close> and the table is
  printed after the loop; the call of \<^verbatim>\<open>analyze_with_finbert(context)\<close> is not enclosed
  in a \<^verbatim>\<open>try\<close> either.
\<close>

fun finbert_results ::
  "(string \<Rightarrow> 'e + 'r) \<Rightarrow> mentions \<Rightarrow> (string \<times> 'r) list \<Rightarrow> 'e + (string \<times> 'r) list" where
  "finbert_results analyze [] analysis_results = Inr analysis_results"
| "finbert_results analyze ((tech, context) # rest) analysis_results =
     (case analyze context of
        Inl e \<Rightarrow> Inl e
      | Inr sentiment \<Rightarrow> finbert_results analyze rest (analysis_results @ [(tech, sentiment)]))"

definition finbert_main ::
  "string option \<Rightarrow> cell list option \<Rightarrow> (string \<Rightarrow> 'e + 'r) \<Rightarrow> 'r line list \<times> 'e exit" where
  "finbert_main pdf csv analyze =
     (case pdf of
        None \<Rightarrow> ([FileNotFoundMessage], Returned)
      | Some apple_10q_text \<Rightarrow>
          (case csv of
             None \<Rightarrow> ([FileNotFoundMessage], Returned)
           | Some column \<Rightarrow>
               (let tech_mentions = find_context apple_10q_text (get_technologies column) 500
                in if tech_mentions = [] then ([NoTechnologiesFound], Returned)
                   else (case finbert_results analyze tech_mentions [] of
                           Inl e \<Rightarrow> ([], Raised e)
                         | Inr analysis_results \<Rightarrow>
                             (map (\<lambda>(tech, sentiment). AnalysisOf tech sentiment) analysis_results,
                              Returned)))))"

text \<open>
  A backend for concrete runs: it raises for one technology and answers \<^verbatim>\<open>Neutral\<close> for
  every other one; \<open>failing_context\<close> is the same for a backend that sees the context only.
\<close>

definition failing_for :: "string \<Rightarrow> string \<Rightarrow> string \<Rightarrow> unit + string" where
  "failing_for bad context tech = (if tech = bad then Inl () else Inr ''Neutral'')"

definition failing_context :: "string \<Rightarrow> string \<Rightarrow> unit + string" where
  "failing_context bad context = (if context = bad then Inl () else Inr ''neutral'')"

section \<open>Notions of the specification\<close>

text \<open>
  The occurrences of a variation are the positions at which the pattern matches, from left
  to right. The specification describes the search for a technology as the first element of
  the list of all candidates (variation, position), ordered by the rank of the variation and
  then by position.
\<close>

definition occurrences :: "string \<Rightarrow> string \<Rightarrow> nat list" where
  "occurrences variation document =
     filter (match_at variation document) [0..<Suc (length document)]"

definition candidates :: "string \<Rightarrow> string list \<Rightarrow> (string \<times> nat) list" where
  "candidates document variations =
     concat (map (\<lambda>v. map (\<lambda>i. (v, i)) (occurrences v document)) variations)"

definition first_occurrence :: "string \<Rightarrow> string list \<Rightarrow> (string \<times> nat) option" where
  "first_occurrence document variations =
     (case candidates document variations of [] \<Rightarrow> None | c # _ \<Rightarrow> Some c)"

text \<open>
  A standalone word: the characters of the variation, up to case, with no word character
  directly before or after them. \<open>word_ends\<close> says that a variation begins and ends with a
  word character.
\<close>

definition word_ends :: "string \<Rightarrow> bool" where
  "word_ends variation = (variation \<noteq> [] \<and> is_word (hd variation) \<and> is_word (last variation))"

definition standalone_at :: "string \<Rightarrow> string \<Rightarrow> nat \<Rightarrow> bool" where
  "standalone_at variation document i =
     (i + length variation \<le> length document
      \<and> map lower (take (length variation) (drop i document)) = map lower variation
      \<and> (i = 0 \<or> \<not> is_word (document ! (i - 1)))
      \<and> (i + length variation = length document \<or> \<not> is_word (document ! (i + length variation))))"

definition standalone_word :: "string \<Rightarrow> string \<Rightarrow> bool" where
  "standalone_word variation document =
     list_ex (standalone_at variation document) [0..<Suc (length document)]"

text \<open>
  Two indexes compared without regard to insertion order: the same keys, and each key with
  the same set of variations.
\<close>

definition same_index :: "synonym_map \<Rightarrow> synonym_map \<Rightarrow> bool" where
  "same_index a b =
     (set (keys a) = set (keys b)
      \<and> list_all (\<lambda>k. map_option set (map_of a k) = map_option set (map_of b k)) (keys a))"

text \<open>Two variation lists share a string when compared without regard to case.\<close>

definition share_variation :: "string list \<Rightarrow> string list \<Rightarrow> bool" where
  "share_variation vs ws = list_ex (\<lambda>v. map lower v \<in> set (map (map lower) ws)) vs"

section \<open>Auxiliary functions\<close>

text \<open>
  The names that the second loop of \<^verbatim>\<open>get_technologies\<close> adds to a map with the keys
  \<open>seen\<close>, in the order in which it adds them.
\<close>

fun new_names :: "string list \<Rightarrow> string list \<Rightarrow> string list" where
  "new_names seen [] = []"
| "new_names seen (n # ns) =
     (if n \<noteq> [] \<and> n \<notin> set seen then n # new_names (seen @ [n]) ns else new_names seen ns)"

text \<open>
  The match that the loop over the variations of one technology stops at, and the entry it
  adds to the mentions of a technology that has none yet.
\<close>

fun first_hit :: "string \<Rightarrow> string list \<Rightarrow> (nat \<times> nat) option" where
  "first_hit document [] = None"
| "first_hit document (v # vs) =
     (case finditer v document of [] \<Rightarrow> first_hit document vs | m # _ \<Rightarrow> Some m)"

definition mention_of :: "string \<Rightarrow> int \<Rightarrow> string \<times> string list \<Rightarrow> (string \<times> string) option" where
  "mention_of document window =
     (\<lambda>(k, vs). map_option (\<lambda>h. (k, context_of document window h)) (first_hit document vs))"

section \<open>Dictionaries\<close>

lemma dict_set_absent: "k \<notin> set (keys d) \<Longrightarrow> dict_set k v d = d @ [(k, v)]"
  by (induction d) (auto simp: keys_def)

lemma set_dict_set: "set (dict_set k v d) \<subseteq> insert (k, v) (set d)"
  by (induction d) (auto split: if_splits)

lemma keys_dict_set: "set (keys (dict_set k v d)) = insert k (set (keys d))"
  by (induction k v d rule: dict_set.induct) (auto simp: keys_def)

lemma keys_append: "keys (a @ b) = keys a @ keys b"
  by (simp add: keys_def)

lemma normalize_step_eq:
  "normalize_step m t =
     (if normalize t \<noteq> [] \<and> normalize t \<notin> set (keys m)
      then m @ [(normalize t, [normalize t])] else m)"
  by (simp add: normalize_step_def Let_def dict_set_absent)

lemma foldl_normalize_step:
  "foldl normalize_step m ts = m @ map (\<lambda>n. (n, [n])) (new_names (keys m) (map normalize ts))"
proof (induction ts arbitrary: m)
  case Nil
  then show ?case by simp
next
  case (Cons t ts)
  show ?case
  proof (cases "normalize t \<noteq> [] \<and> normalize t \<notin> set (keys m)")
    case True
    then have "normalize_step m t = m @ [(normalize t, [normalize t])]"
      by (simp add: normalize_step_eq)
    then show ?thesis using True Cons.IH [of "m @ [(normalize t, [normalize t])]"]
      by (simp add: keys_append keys_def)
  next
    case False
    then have "normalize_step m t = m" by (auto simp add: normalize_step_eq)
    then show ?thesis using False Cons.IH [of m] by auto
  qed
qed

lemma set_new_names: "set (new_names seen ns) = {n \<in> set ns. n \<noteq> [] \<and> n \<notin> set seen}"
  by (induction ns arbitrary: seen) auto

lemma distinct_new_names: "distinct (new_names seen ns)"
  by (induction ns arbitrary: seen) (auto simp: set_new_names)

lemma get_technologies_eq:
  "get_technologies column =
     synonym_seed @ map (\<lambda>n. (n, [n])) (new_names (keys synonym_seed) (map normalize (tech_list column)))"
  by (simp add: get_technologies_def foldl_normalize_step)

lemma keys_get_technologies:
  "keys (get_technologies column) =
     keys synonym_seed @ new_names (keys synonym_seed) (map normalize (tech_list column))"
  by (simp add: get_technologies_eq keys_def comp_def)

lemma distinct_keys_seed: "distinct (keys synonym_seed)"
  by (simp add: synonym_seed_def keys_def)

lemma distinct_keys_get_technologies: "distinct (keys (get_technologies column))"
  by (auto simp: keys_get_technologies distinct_keys_seed distinct_new_names set_new_names)

section \<open>Matches and the search for a technology\<close>

declare finditer_from.simps [simp del]

lemma finditer_from_Nil:
  "finditer_from v doc i = [] \<longleftrightarrow> (\<forall>j. i \<le> j \<and> j \<le> length doc \<longrightarrow> \<not> match_at v doc j)"
proof (induction v doc i rule: finditer_from.induct)
  case (1 v doc i)
  show ?case
  proof (cases "length doc < i")
    case True
    then show ?thesis by (auto simp add: finditer_from.simps [of v doc i])
  next
    case False
    show ?thesis
    proof (cases "match_at v doc i")
      case True
      with False show ?thesis
        by (auto simp add: finditer_from.simps [of v doc i])
    next
      case no: False
      have "finditer_from v doc i = finditer_from v doc (Suc i)"
        using False no by (simp add: finditer_from.simps [of v doc i])
      moreover have "(\<forall>j. i \<le> j \<and> j \<le> length doc \<longrightarrow> \<not> match_at v doc j)
                     \<longleftrightarrow> (\<forall>j. Suc i \<le> j \<and> j \<le> length doc \<longrightarrow> \<not> match_at v doc j)"
        using no by (metis Suc_leI le_neq_implies_less Suc_leD)
      ultimately show ?thesis using "1.IH"(2) [OF False no] by simp
    qed
  qed
qed

lemma finditer_from_Cons:
  "finditer_from v doc i = m # ms \<Longrightarrow>
     i \<le> fst m \<and> fst m \<le> length doc \<and> match_at v doc (fst m) \<and> snd m = fst m + length v
     \<and> (\<forall>j. i \<le> j \<and> j < fst m \<longrightarrow> \<not> match_at v doc j)"
proof (induction v doc i rule: finditer_from.induct)
  case (1 v doc i)
  show ?case
  proof (cases "length doc < i")
    case True
    with "1.prems" show ?thesis by (simp add: finditer_from.simps [of v doc i])
  next
    case False
    show ?thesis
    proof (cases "match_at v doc i")
      case True
      with False "1.prems" have "m = (i, i + length v)"
        by (simp add: finditer_from.simps [of v doc i])
      with True False show ?thesis by auto
    next
      case no: False
      have "finditer_from v doc (Suc i) = m # ms"
        using False no "1.prems" by (simp add: finditer_from.simps [of v doc i])
      from "1.IH"(2) [OF False no this] show ?thesis
        using no by (metis Suc_leD Suc_leI le_neq_implies_less)
    qed
  qed
qed

lemma occurrences_first:
  assumes "i \<le> length doc" "match_at v doc i" "\<forall>j<i. \<not> match_at v doc j"
  shows "\<exists>rest. occurrences v doc = i # rest"
proof -
  have "[0..<Suc (length doc)] = [0..<i] @ [i..<Suc (length doc)]"
    using assms(1) upt_add_eq_append [of 0 i "Suc (length doc) - i"] by simp
  moreover have "[i..<Suc (length doc)] = i # [Suc i..<Suc (length doc)]"
    using assms(1) by (simp add: upt_conv_Cons)
  moreover have "filter (match_at v doc) [0..<i] = []"
    using assms(3) by (simp add: filter_empty_conv)
  ultimately show ?thesis
    using assms(2) by (simp add: occurrences_def del: upt_Suc)
qed

lemma finditer_Nil: "finditer v doc = [] \<longleftrightarrow> occurrences v doc = []"
  by (auto simp: finditer_def finditer_from_Nil occurrences_def filter_empty_conv)

lemma finditer_Cons:
  assumes "finditer v doc = m # ms"
  shows "\<exists>rest. occurrences v doc = fst m # rest \<and> snd m = fst m + length v"
proof -
  from finditer_from_Cons [OF assms [unfolded finditer_def]]
  have "fst m \<le> length doc" "match_at v doc (fst m)" "snd m = fst m + length v"
    "\<forall>j<fst m. \<not> match_at v doc j" by auto
  then show ?thesis using occurrences_first by blast
qed

lemma first_hit_spec:
  "first_hit doc vs = map_option (\<lambda>(v, i). (i, i + length v)) (first_occurrence doc vs)"
proof (induction vs)
  case Nil
  then show ?case by (simp add: first_occurrence_def candidates_def)
next
  case (Cons v vs)
  show ?case
  proof (cases "finditer v doc")
    case Nil
    then have "occurrences v doc = []" by (simp add: finditer_Nil)
    then have "first_occurrence doc (v # vs) = first_occurrence doc vs"
      by (simp add: first_occurrence_def candidates_def)
    with Nil Cons.IH show ?thesis by simp
  next
    case (Cons m ms)
    from finditer_Cons [OF this] obtain rest where
      "occurrences v doc = fst m # rest" "snd m = fst m + length v" by blast
    then have "first_occurrence doc (v # vs) = Some (v, fst m)" "m = (fst m, fst m + length v)"
      by (simp_all add: first_occurrence_def candidates_def prod_eq_iff)
    with Cons show ?thesis by simp
  qed
qed

lemma scan_variations_absent:
  "p \<notin> set (keys m) \<Longrightarrow>
     scan_variations doc w p vs m =
       (case first_hit doc vs of None \<Rightarrow> m | Some h \<Rightarrow> m @ [(p, context_of doc w h)])"
proof (induction vs)
  case Nil
  then show ?case by simp
next
  case (Cons v vs)
  then show ?case
    by (cases "finditer v doc") (simp_all add: scan_matches_def dict_set_absent keys_append, simp add: keys_def)
qed

lemma find_context_foldl:
  "distinct (keys idx) \<Longrightarrow> set (keys m) \<inter> set (keys idx) = {} \<Longrightarrow>
     foldl (\<lambda>mentions (primary_tech, variations).
              scan_variations doc w primary_tech variations mentions) m idx
       = m @ List.map_filter (mention_of doc w) idx"
proof (induction idx arbitrary: m)
  case Nil
  then show ?case by simp
next
  case (Cons e idx)
  obtain k vs where e: "e = (k, vs)" by (cases e)
  from Cons.prems e have k: "k \<notin> set (keys m)" "k \<notin> set (keys idx)" "distinct (keys idx)"
    and disj: "set (keys m) \<inter> set (keys idx) = {}"
    by (auto simp: keys_def)
  show ?case
  proof (cases "first_hit doc vs")
    case None
    then have "scan_variations doc w k vs m = m"
      using k(1) by (simp add: scan_variations_absent)
    then show ?thesis
      using None Cons.IH [OF k(3) disj] e by (simp add: mention_of_def)
  next
    case (Some h)
    then have s: "scan_variations doc w k vs m = m @ [(k, context_of doc w h)]"
      using k(1) by (simp add: scan_variations_absent)
    have "set (keys (m @ [(k, context_of doc w h)])) \<inter> set (keys idx) = {}"
      using disj k(2) by (auto simp: keys_def)
    from Cons.IH [OF k(3) this] show ?thesis
      using Some s e by (simp add: mention_of_def)
  qed
qed

lemma find_context_eq:
  "distinct (keys idx) \<Longrightarrow> find_context doc idx w = List.map_filter (mention_of doc w) idx"
  using find_context_foldl [of idx "[]" doc w] by (simp add: find_context_def keys_def)

lemma keys_map_filter_mention: "set (keys (List.map_filter (mention_of doc w) idx)) \<subseteq> set (keys idx)"
  by (induction idx) (auto simp: mention_of_def keys_def split: option.splits)

lemma distinct_map_filter_mention:
  "distinct (keys idx) \<Longrightarrow> distinct (keys (List.map_filter (mention_of doc w) idx))"
proof (induction idx)
  case Nil
  then show ?case by (simp add: keys_def)
next
  case (Cons e idx)
  obtain k vs where e: "e = (k, vs)" by (cases e)
  with Cons.prems have "k \<notin> set (keys idx)" "distinct (keys idx)" by (auto simp: keys_def)
  with Cons.IH keys_map_filter_mention [of doc w idx] e show ?case
    by (auto simp: mention_of_def keys_def split: option.splits)
qed

lemma map_of_map_filter_mention:
  "distinct (keys idx) \<Longrightarrow> (k, vs) \<in> set idx \<Longrightarrow>
     map_of (List.map_filter (mention_of doc w) idx) k
       = map_option (context_of doc w) (first_hit doc vs)"
proof (induction idx)
  case Nil
  then show ?case by simp
next
  case (Cons e idx)
  obtain k' vs' where e: "e = (k', vs')" by (cases e)
  from Cons.prems e have d: "k' \<notin> set (keys idx)" "distinct (keys idx)" by (auto simp: keys_def)
  show ?case
  proof (cases "k' = k")
    case True
    with d(1) Cons.prems(2) e have vs: "vs' = vs"
      by (auto simp: keys_def rev_image_eqI)
    have "k \<notin> set (keys (List.map_filter (mention_of doc w) idx))"
      using d(1) True keys_map_filter_mention [of doc w idx] by blast
    then have "map_of (List.map_filter (mention_of doc w) idx) k = None"
      by (simp add: map_of_eq_None_iff keys_def)
    then show ?thesis using e True vs
      by (simp add: mention_of_def split: option.splits)
  next
    case False
    with Cons.prems(2) e have "(k, vs) \<in> set idx" by auto
    from Cons.IH [OF d(2) this] show ?thesis using e False
      by (simp add: mention_of_def split: option.splits)
  qed
qed

lemma scan_matches_inv:
  assumes "\<forall>e \<in> set m. Q e"
    and "\<And>h hs. finditer v doc = h # hs \<Longrightarrow> Q (p, context_of doc w h)"
  shows "\<forall>e \<in> set (scan_matches doc w p v m). Q e"
proof (cases "finditer v doc")
  case Nil
  then show ?thesis using assms(1) by (simp add: scan_matches_def)
next
  case (Cons h hs)
  then have "set (scan_matches doc w p v m) \<subseteq> insert (p, context_of doc w h) (set m)"
    by (simp add: scan_matches_def set_dict_set)
  then show ?thesis using assms(1) assms(2) [OF Cons] by blast
qed

lemma scan_variations_inv:
  assumes "\<forall>e \<in> set m. Q e"
    and "\<And>v h hs. v \<in> set vs \<Longrightarrow> finditer v doc = h # hs \<Longrightarrow> Q (p, context_of doc w h)"
  shows "\<forall>e \<in> set (scan_variations doc w p vs m). Q e"
  using assms
proof (induction vs arbitrary: m)
  case Nil
  then show ?case by simp
next
  case (Cons v vs)
  have step: "\<forall>e \<in> set (scan_matches doc w p v m). Q e"
    using Cons.prems(1) by (rule scan_matches_inv) (rule Cons.prems(2), simp_all)
  have rest: "\<forall>e \<in> set (scan_variations doc w p vs (scan_matches doc w p v m)). Q e"
    using step by (rule Cons.IH) (rule Cons.prems(2), simp_all)
  show ?case using step rest by (simp add: Let_def)
qed

lemma find_context_foldl_inv:
  assumes "\<forall>e \<in> set m. Q e"
    and "\<And>k vs v h hs. (k, vs) \<in> set idx \<Longrightarrow> v \<in> set vs \<Longrightarrow> finditer v doc = h # hs
           \<Longrightarrow> Q (k, context_of doc w h)"
  shows "\<forall>e \<in> set (foldl (\<lambda>mentions (primary_tech, variations).
              scan_variations doc w primary_tech variations mentions) m idx). Q e"
  using assms
proof (induction idx arbitrary: m)
  case Nil
  then show ?case by simp
next
  case (Cons e idx)
  obtain k vs where e: "e = (k, vs)" by (cases e)
  have step: "\<forall>e \<in> set (scan_variations doc w k vs m). Q e"
    using Cons.prems(1) by (rule scan_variations_inv) (rule Cons.prems(2), simp_all add: e)
  have "\<forall>x \<in> set (foldl (\<lambda>mentions (primary_tech, variations).
              scan_variations doc w primary_tech variations mentions)
            (scan_variations doc w k vs m) idx). Q x"
    using step by (rule Cons.IH) (rule Cons.prems(2), simp_all)
  then show ?case by (simp add: e)
qed

lemma find_context_origin:
  assumes "(k, c) \<in> set (find_context doc idx w)"
  shows "\<exists>vs v i. (k, vs) \<in> set idx \<and> v \<in> set vs \<and> match_at v doc i
           \<and> c = context_of doc w (i, i + length v)"
proof -
  let ?Q = "\<lambda>e. \<exists>vs v i. (fst e, vs) \<in> set idx \<and> v \<in> set vs \<and> match_at v doc i
           \<and> snd e = context_of doc w (i, i + length v)"
  have "\<forall>e \<in> set (foldl (\<lambda>mentions (primary_tech, variations).
              scan_variations doc w primary_tech variations mentions) [] idx). ?Q e"
  proof (rule find_context_foldl_inv)
    show "\<forall>e \<in> set []. ?Q e" by simp
  next
    fix k vs v h hs
    assume a: "(k, vs) \<in> set idx" "v \<in> set vs" "finditer v doc = h # hs"
    from finditer_from_Cons [OF a(3) [unfolded finditer_def]]
    have "match_at v doc (fst h)" "snd h = fst h + length v" by blast+
    then have "h = (fst h, fst h + length v)" by (simp add: prod_eq_iff)
    then have "context_of doc w h = context_of doc w (fst h, fst h + length v)" by simp
    with a \<open>match_at v doc (fst h)\<close> show "?Q (k, context_of doc w h)" by auto
  qed
  with assms show ?thesis unfolding find_context_def by fastforce
qed

lemma py_slice_sublist: "\<exists>pre post. xs = pre @ py_slice xs a b @ post"
proof -
  obtain j n where "py_slice xs a b = take n (drop j xs)"
    unfolding py_slice_def Let_def by blast
  moreover have "xs = take j xs @ take n (drop j xs) @ drop n (drop j xs)"
    by (simp only: append_take_drop_id)
  ultimately show ?thesis by metis
qed

lemma context_of_clipped:
  assumes "0 \<le> w" "i + n \<le> length doc"
  defines "lo \<equiv> max 0 (int i - w)"
    and "hi \<equiv> min (int (length doc)) (int (i + n) + w)"
  shows "0 \<le> lo \<and> lo \<le> hi \<and> hi \<le> int (length doc)
         \<and> context_of doc w (i, i + n) = take (nat (hi - lo)) (drop (nat lo) doc)
         \<and> int (length (context_of doc w (i, i + n))) = hi - lo
         \<and> hi - lo \<le> 2 * w + int n"
proof -
  have b: "0 \<le> lo" "lo \<le> hi" "hi \<le> int (length doc)" "hi - lo \<le> 2 * w + int n" "lo \<le> int (length doc)" "0 \<le> hi"
    using assms(1,2) unfolding lo_def hi_def by linarith+
  have c: "context_of doc w (i, i + n) = py_slice doc lo hi"
    by (simp add: context_of_def lo_def hi_def Let_def)
  have "py_slice doc lo hi = take (nat (hi - lo)) (drop (nat lo) doc)"
    using b unfolding py_slice_def Let_def by (simp add: min_def)
  moreover have "nat (hi - lo) \<le> length doc - nat lo" using b by linarith
  then have "int (length (take (nat (hi - lo)) (drop (nat lo) doc))) = hi - lo"
    using b by (simp add: min_absorb2)
  ultimately show ?thesis using b c by simp
qed

section \<open>Whole words\<close>

lemma is_wordI1: "65 \<le> (of_char c :: nat) \<Longrightarrow> (of_char c :: nat) \<le> 90 \<Longrightarrow> is_word c"
  unfolding is_word_def Let_def by blast
lemma is_wordI2: "97 \<le> (of_char c :: nat) \<Longrightarrow> (of_char c :: nat) \<le> 122 \<Longrightarrow> is_word c"
  unfolding is_word_def Let_def by blast
lemma is_wordI3: "192 \<le> (of_char c :: nat) \<Longrightarrow> (of_char c :: nat) \<le> 214 \<Longrightarrow> is_word c"
  unfolding is_word_def Let_def by blast
lemma is_wordI4: "216 \<le> (of_char c :: nat) \<Longrightarrow> (of_char c :: nat) \<le> 246 \<Longrightarrow> is_word c"
  unfolding is_word_def Let_def by blast
lemma is_wordI5: "248 \<le> (of_char c :: nat) \<Longrightarrow> is_word c"
  unfolding is_word_def Let_def by blast

lemma lower_upper:
  assumes "(65 \<le> (of_char c :: nat) \<and> (of_char c :: nat) \<le> 90) \<or> (192 \<le> (of_char c :: nat) \<and> (of_char c :: nat) \<le> 214)
           \<or> (216 \<le> (of_char c :: nat) \<and> (of_char c :: nat) \<le> 222)"
  shows "(of_char (lower c) :: nat) = of_char c + 32"
proof -
  have "lower c = char_of ((of_char c :: nat) + 32)"
    unfolding lower_def Let_def using assms by (simp only: if_True)
  then have "(of_char (lower c) :: nat) = (of_char c + 32) mod 256" by (simp only: of_char_of)
  moreover have "(of_char c :: nat) + 32 < 256" using assms by linarith
  ultimately show ?thesis by (simp only: mod_less)
qed

lemma lower_other:
  assumes "\<not> ((65 \<le> (of_char c :: nat) \<and> (of_char c :: nat) \<le> 90) \<or> (192 \<le> (of_char c :: nat) \<and> (of_char c :: nat) \<le> 214)
           \<or> (216 \<le> (of_char c :: nat) \<and> (of_char c :: nat) \<le> 222))"
  shows "lower c = c"
  unfolding lower_def Let_def using assms by (simp only: if_False)

lemma is_word_lower: "is_word (lower c) = is_word c"
proof (cases "(65 \<le> (of_char c :: nat) \<and> (of_char c :: nat) \<le> 90) \<or> (192 \<le> (of_char c :: nat) \<and> (of_char c :: nat) \<le> 214)
           \<or> (216 \<le> (of_char c :: nat) \<and> (of_char c :: nat) \<le> 222)")
  case False
  then have "lower c = c" by (rule lower_other)
  then show ?thesis by simp
next
  case True
  note up = lower_upper [OF True]
  from True consider
      (a) "65 \<le> (of_char c :: nat)" "(of_char c :: nat) \<le> 90"
    | (b) "192 \<le> (of_char c :: nat)" "(of_char c :: nat) \<le> 214"
    | (c) "216 \<le> (of_char c :: nat)" "(of_char c :: nat) \<le> 222"
    by blast
  then show ?thesis
  proof cases
    case a
    then have "is_word c" by (rule is_wordI1)
    moreover have "97 \<le> (of_char (lower c) :: nat)" "(of_char (lower c) :: nat) \<le> 122"
      unfolding up using a by linarith+
    then have "is_word (lower c)" by (rule is_wordI2)
    ultimately show ?thesis by simp
  next
    case b
    then have "is_word c" by (rule is_wordI3)
    moreover have "216 \<le> (of_char (lower c) :: nat)" "(of_char (lower c) :: nat) \<le> 246"
      unfolding up using b by linarith+
    then have "is_word (lower c)" by (rule is_wordI4)
    ultimately show ?thesis by simp
  next
    case c
    then have "is_word c" by (intro is_wordI4) linarith+
    moreover have "248 \<le> (of_char (lower c) :: nat)"
      unfolding up using c by linarith
    then have "is_word (lower c)" by (rule is_wordI5)
    ultimately show ?thesis by simp
  qed
qed

lemma lower_eq_is_word: "lower a = lower b \<Longrightarrow> is_word a = is_word b"
  by (metis is_word_lower)

lemma ci_eq_nth:
  assumes "map lower (take (length v) (drop i doc)) = map lower v" "i + length v \<le> length doc" "j < length v"
  shows "lower (doc ! (i + j)) = lower (v ! j)"
proof -
  have "map lower (take (length v) (drop i doc)) ! j = map lower v ! j" using assms(1) by simp
  then show ?thesis using assms(2,3) by simp
qed

lemma word_boundary_left:
  assumes "i < length doc" "is_word (doc ! i)"
  shows "word_boundary doc i \<longleftrightarrow> (i = 0 \<or> \<not> is_word (doc ! (i - 1)))"
proof -
  have "i \<le> length doc" using assms(1) by simp
  moreover have "0 < i \<longleftrightarrow> i \<noteq> 0" by simp
  ultimately show ?thesis unfolding word_boundary_def using assms by blast
qed

lemma word_boundary_right:
  assumes "0 < e" "e \<le> length doc" "is_word (doc ! (e - 1))"
  shows "word_boundary doc e \<longleftrightarrow> (e = length doc \<or> \<not> is_word (doc ! e))"
proof -
  have "e < length doc \<longleftrightarrow> e \<noteq> length doc" using assms(2) by linarith
  then show ?thesis unfolding word_boundary_def using assms by blast
qed

lemma match_at_standalone:
  assumes "word_ends v"
  shows "match_at v doc i \<longleftrightarrow> standalone_at v doc i"
proof (cases "i + length v \<le> length doc \<and> map lower (take (length v) (drop i doc)) = map lower v")
  case False
  then show ?thesis unfolding match_at_def standalone_at_def by blast
next
  case True
  then have le: "i + length v \<le> length doc"
    and ci: "map lower (take (length v) (drop i doc)) = map lower v" by blast+
  from assms have n: "0 < length v" and hw: "is_word (hd v)" and lw: "is_word (last v)"
    by (simp_all add: word_ends_def)
  have hd: "hd v = v ! 0" and lst: "last v = v ! (length v - 1)"
    using n by (simp_all add: hd_conv_nth last_conv_nth)
  have "lower (doc ! (i + 0)) = lower (v ! 0)"
    using ci le n by (rule ci_eq_nth)
  then have "is_word (doc ! (i + 0)) = is_word (v ! 0)" by (rule lower_eq_is_word)
  then have first: "is_word (doc ! i)" using hw hd by simp
  have "length v - 1 < length v" using n by simp
  with ci le have "lower (doc ! (i + (length v - 1))) = lower (v ! (length v - 1))"
    by (rule ci_eq_nth)
  then have "is_word (doc ! (i + (length v - 1))) = is_word (v ! (length v - 1))"
    by (rule lower_eq_is_word)
  moreover have "i + (length v - 1) = i + length v - 1" using n by arith
  ultimately have last: "is_word (doc ! (i + length v - 1))" using lw lst by simp
  have "i < length doc" using le n by linarith
  then have l: "word_boundary doc i \<longleftrightarrow> (i = 0 \<or> \<not> is_word (doc ! (i - 1)))"
    using first by (rule word_boundary_left)
  have "0 < i + length v" using n by simp
  then have r: "word_boundary doc (i + length v)
      \<longleftrightarrow> (i + length v = length doc \<or> \<not> is_word (doc ! (i + length v)))"
    using le last by (rule word_boundary_right)
  show ?thesis unfolding match_at_def standalone_at_def l r by blast
qed

lemma finditer_from_all:
  "m \<in> set (finditer_from v doc i) \<Longrightarrow> match_at v doc (fst m) \<and> snd m = fst m + length v"
proof (induction v doc i rule: finditer_from.induct)
  case (1 v doc i)
  show ?case
  proof (cases "length doc < i")
    case True
    with "1.prems" show ?thesis by (simp add: finditer_from.simps [of v doc i])
  next
    case False
    show ?thesis
    proof (cases "match_at v doc i")
      case True
      with False "1.prems" have "m = (i, i + length v) \<or> m \<in> set (finditer_from v doc (i + max 1 (length v)))"
        by (simp add: finditer_from.simps [of v doc i])
      then show ?thesis using "1.IH"(1) [OF False True] True by auto
    next
      case no: False
      with False "1.prems" have "m \<in> set (finditer_from v doc (Suc i))"
        by (simp add: finditer_from.simps [of v doc i])
      then show ?thesis using "1.IH"(2) [OF False no] by simp
    qed
  qed
qed

lemma occurrences_standalone:
  assumes "word_ends v"
  shows "occurrences v doc = [] \<longleftrightarrow> \<not> standalone_word v doc"
  unfolding occurrences_def standalone_word_def filter_empty_conv list_ex_iff
  using match_at_standalone [OF assms] by blast

section \<open>The synonym map that \<^verbatim>\<open>get_technologies\<close> returns\<close>

lemma set_get_technologies:
  "set (get_technologies column) =
     set synonym_seed \<union> (\<lambda>n. (n, [n])) ` {n \<in> set (map normalize (tech_list column)). n \<noteq> [] \<and> n \<notin> set (keys synonym_seed)}"
  by (simp add: get_technologies_eq set_new_names)

lemma seed_entries: "(k, vs) \<in> set synonym_seed \<Longrightarrow> vs \<noteq> [] \<and> k \<in> set vs"
  by (auto simp: synonym_seed_def)

lemma seed_key: "(k, vs) \<in> set synonym_seed \<Longrightarrow> k \<in> set (keys synonym_seed)"
  by (force simp: keys_def)

lemma entry_cases:
  assumes "(k, vs) \<in> set (get_technologies column)"
  shows "(k, vs) \<in> set synonym_seed \<or> (vs = [k] \<and> k \<noteq> [] \<and> k \<notin> set (keys synonym_seed))"
  using assms unfolding set_get_technologies by blast

lemma mem_keys_get_technologies:
  "n \<in> set (keys (get_technologies column)) \<longleftrightarrow>
     n \<in> set (keys synonym_seed) \<or> (n \<noteq> [] \<and> n \<in> set (map normalize (tech_list column)))"
  unfolding keys_get_technologies set_append set_new_names by blast

lemma map_of_singletons: "map_of (map (\<lambda>n. (n, [n])) ns) k = (if k \<in> set ns then Some [k] else None)"
  by (induction ns) auto

lemma map_of_get_technologies:
  "map_of (get_technologies column) k =
     (case map_of synonym_seed k of
        Some vs \<Rightarrow> Some vs
      | None \<Rightarrow> if k \<noteq> [] \<and> k \<in> set (map normalize (tech_list column)) then Some [k] else None)"
proof (cases "map_of synonym_seed k")
  case None
  then have "k \<notin> set (keys synonym_seed)" by (simp add: map_of_eq_None_iff keys_def)
  then show ?thesis using None
    by (simp add: get_technologies_eq map_add_def map_of_singletons set_new_names)
next
  case (Some vs)
  then show ?thesis by (simp add: get_technologies_eq map_add_def)
qed

lemma set_tech_list: "set (tech_list column) = (\<Union>techs \<in> set column. set (map strip (split CHR '';'' (str techs))))"
  by (simp add: tech_list_def)

lemma eval_blockchain_ai:
  "get_technologies [Str ''Blockchain; AI'']
     = synonym_seed @ [(''Blockchain'', [''Blockchain'']), (''AI'', [''AI''])]"
  by code_simp

text \<open>
  Claim C1, as amended. In the map that \<^verbatim>\<open>get_technologies\<close> returns, every key has a
  non-empty list of variations, no key occurs twice, and two different keys that are not
  keys of the hard-coded list have no variation in common. Nothing of the kind holds for
  the hard-coded entries, nor between a hard-coded and a discovered entry, nor up to case.
\<close>

theorem synonym_index_invariant:
  assumes "(k, vs) \<in> set (get_technologies column)"
    and "(k', vs') \<in> set (get_technologies column)"
  shows "vs \<noteq> [] \<and> (k = k' \<longrightarrow> vs = vs')
         \<and> (k \<noteq> k' \<and> k \<notin> set (keys synonym_seed) \<and> k' \<notin> set (keys synonym_seed)
              \<longrightarrow> set vs \<inter> set vs' = {})"
proof -
  have "vs \<noteq> []" using entry_cases [OF assms(1)] seed_entries by blast
  moreover have "vs = vs'" if "k = k'"
    using that assms distinct_keys_get_technologies [of column]
    unfolding keys_def by (blast dest: eq_key_imp_eq_value)
  moreover have "set vs \<inter> set vs' = {}"
    if "k \<noteq> k'" "k \<notin> set (keys synonym_seed)" "k' \<notin> set (keys synonym_seed)"
  proof -
    have "vs = [k]" "vs' = [k']"
      using entry_cases [OF assms(1)] entry_cases [OF assms(2)] seed_key that by blast+
    then show ?thesis using that(1) by simp
  qed
  ultimately show ?thesis by blast
qed

theorem synonym_index_invariant_witness:
  "(''Blockchain'', [''Blockchain'']) \<in> set (get_technologies [Str ''Blockchain; AI''])
   \<and> (''AI'', [''AI'']) \<in> set (get_technologies [Str ''Blockchain; AI''])
   \<and> [''Blockchain''] \<noteq> ([] :: string list)
   \<and> set [''Blockchain''] \<inter> set [''AI''] = ({} :: string set)"
proof -
  have h1: "(''Blockchain'', [''Blockchain'']) \<in> set (get_technologies [Str ''Blockchain; AI''])"
    by (simp add: eval_blockchain_ai)
  have h2: "(''AI'', [''AI'']) \<in> set (get_technologies [Str ''Blockchain; AI''])"
    by (simp add: eval_blockchain_ai)
  show ?thesis
    using synonym_index_invariant [OF h1 h2] h1 h2
    by (simp add: keys_def synonym_seed_def)
qed

text \<open>
  Claim C1 as stated fails on the hard-coded list itself: with an empty CSV column the keys
  \<^verbatim>\<open>iPhone\<close> and \<^verbatim>\<open>iPad\<close> both list the variation \<^verbatim>\<open>iOS\<close>.
\<close>

theorem seed_shares_variation:
  "map_of (get_technologies []) ''iPhone'' = Some [''iPhone'', ''iOS'']
   \<and> map_of (get_technologies []) ''iPad'' = Some [''iPad'', ''iOS'']
   \<and> share_variation [''iPhone'', ''iOS''] [''iPad'', ''iOS'']"
  by (simp add: get_technologies_def tech_list_def synonym_seed_def share_variation_def)

lemma eval_new_names_macos:
  "new_names (keys synonym_seed) (map normalize (tech_list [Str ''macOS; Mac; 5G!; macOS'']))
     = [''macOS'', ''5G'']"
  by code_simp

text \<open>
  Claim C2, as amended. The body of the second loop appends a normalized name, as a new
  entry with that name as its key and its only variation, exactly when the name is not
  empty and not a key of the map; the variations of the entries are not looked at. So the
  map returned is the hard-coded list followed by one entry for each new name, in the order
  of first appearance; a name is a key of it exactly when it is a hard-coded key or a
  non-empty normalized name of the column; and no key occurs twice.
\<close>

theorem discovered_name_inserted:
  "normalize_step m tech =
     (if normalize tech \<noteq> [] \<and> normalize tech \<notin> set (keys m)
      then m @ [(normalize tech, [normalize tech])] else m)
   \<and> get_technologies column =
       synonym_seed @ map (\<lambda>n. (n, [n]))
         (new_names (keys synonym_seed) (map normalize (tech_list column)))
   \<and> (n \<in> set (keys (get_technologies column)) \<longleftrightarrow>
        n \<in> set (keys synonym_seed) \<or> (n \<noteq> [] \<and> n \<in> set (map normalize (tech_list column))))
   \<and> distinct (keys (get_technologies column))"
  using normalize_step_eq [of m tech] get_technologies_eq [of column]
    mem_keys_get_technologies [of n column] distinct_keys_get_technologies [of column]
  by blast

theorem discovered_name_inserted_witness:
  "normalize_step synonym_seed ''5G!'' = synonym_seed @ [(''5G'', [''5G''])]
   \<and> get_technologies [Str ''macOS; Mac; 5G!; macOS'']
       = synonym_seed @ [(''macOS'', [''macOS'']), (''5G'', [''5G''])]
   \<and> ''5G'' \<in> set (keys (get_technologies [Str ''macOS; Mac; 5G!; macOS'']))
   \<and> distinct (keys (get_technologies [Str ''macOS; Mac; 5G!; macOS'']))"
proof -
  have n: "normalize ''5G!'' = ''5G''" by code_simp
  have k: "''5G'' \<notin> set (keys synonym_seed)" by (simp add: keys_def synonym_seed_def)
  have t: "''5G'' \<in> set (map normalize (tech_list [Str ''macOS; Mac; 5G!; macOS'']))" by code_simp
  note T = discovered_name_inserted [of synonym_seed "''5G!''" "[Str ''macOS; Mac; 5G!; macOS'']" "''5G''"]
  from T have "normalize_step synonym_seed ''5G!'' = synonym_seed @ [(''5G'', [''5G''])]"
    using n k by simp
  moreover from T have "get_technologies [Str ''macOS; Mac; 5G!; macOS'']
       = synonym_seed @ [(''macOS'', [''macOS'']), (''5G'', [''5G''])]"
    using eval_new_names_macos by simp
  moreover from T have "''5G'' \<in> set (keys (get_technologies [Str ''macOS; Mac; 5G!; macOS'']))"
    using t by blast
  moreover from T have "distinct (keys (get_technologies [Str ''macOS; Mac; 5G!; macOS'']))"
    by blast
  ultimately show ?thesis by blast
qed

text \<open>
  Claim C2 as stated fails: \<^verbatim>\<open>iOS\<close> is a variation of the entry \<^verbatim>\<open>iPhone\<close> and is
  inserted all the same, since it is not a key.
\<close>

theorem variation_of_seed_inserted:
  "get_technologies [Str ''iOS''] = synonym_seed @ [(''iOS'', [''iOS''])]
   \<and> map_of synonym_seed ''iPhone'' = Some [''iPhone'', ''iOS'']"
  by code_simp

text \<open>
  Claim C4. An empty text, separators alone and punctuation alone add nothing to the map,
  but a missing cell does: \<^verbatim>\<open>str(techs)\<close> turns NaN into the text \<^verbatim>\<open>nan\<close>, which is
  stored as a technology of its own.
\<close>

theorem nan_cell_adds_entry:
  "get_technologies [NaN] = synonym_seed @ [(''nan'', [''nan''])]
   \<and> get_technologies [Str [], Str '';; ;'', Str ''?!''] = synonym_seed"
  by code_simp

text \<open>
  Claim C8. Two calls of \<^verbatim>\<open>get_technologies\<close> on the same rows return the same keys
  with the same sets of variations; the map is built afresh from the hard-coded list in each
  call. The same holds when the second input has the same rows in another order or with
  repetitions, of which identical input is a case.
\<close>

theorem same_input_same_index:
  assumes "set column' = set column"
  shows "same_index (get_technologies column) (get_technologies column')"
proof -
  have "set (tech_list column') = set (tech_list column)"
    using assms by (simp only: set_tech_list)
  then have n: "set (map normalize (tech_list column')) = set (map normalize (tech_list column))"
    by simp
  have "set (keys (get_technologies column)) = set (keys (get_technologies column'))"
    using n mem_keys_get_technologies by blast
  moreover have "map_of (get_technologies column) k = map_of (get_technologies column') k" for k
    by (simp only: map_of_get_technologies n)
  ultimately show ?thesis by (simp add: same_index_def list_all_iff)
qed

theorem same_input_same_index_witness:
  "set [Str ''Blockchain; AI'', NaN] = set [Str ''Blockchain; AI'', NaN]
   \<and> same_index (get_technologies [Str ''Blockchain; AI'', NaN])
        (get_technologies [Str ''Blockchain; AI'', NaN])"
proof -
  have h: "set [Str ''Blockchain; AI'', NaN] = set [Str ''Blockchain; AI'', NaN]" by simp
  show ?thesis using h same_input_same_index [OF h] by simp
qed

section \<open>The mentions that \<^verbatim>\<open>find_context\<close> returns\<close>

lemma first_hit_None: "\<forall>v \<in> set vs. finditer v doc = [] \<Longrightarrow> first_hit doc vs = None"
  by (induction vs) simp_all

lemma mem_keys_find_context:
  assumes "distinct (keys idx)" "(k, vs) \<in> set idx"
  shows "k \<in> set (keys (find_context doc idx w)) \<longleftrightarrow> first_hit doc vs \<noteq> None"
proof -
  have "k \<in> set (keys (find_context doc idx w)) \<longleftrightarrow> map_of (find_context doc idx w) k \<noteq> None"
    by (simp add: map_of_eq_None_iff keys_def)
  also have "\<dots> \<longleftrightarrow> first_hit doc vs \<noteq> None"
    using assms by (simp add: find_context_eq map_of_map_filter_mention)
  finally show ?thesis .
qed

lemma eval_find_context_ios:
  "find_context ''ios IPHONE.'' synonym_seed 2
     = [(''iPhone'', ''s IPHONE.''), (''iPad'', ''ios I'')]"
  by code_simp

lemma seed_iPhone: "(''iPhone'', [''iPhone'', ''iOS'']) \<in> set synonym_seed"
  by (simp add: synonym_seed_def)

lemma seed_iPad: "(''iPad'', [''iPad'', ''iOS'']) \<in> set synonym_seed"
  by (simp add: synonym_seed_def)

lemma seed_Mac: "(''Mac'', [''Mac'', ''macOS'', ''MacBook'']) \<in> set synonym_seed"
  by (simp add: synonym_seed_def)

text \<open>
  Claim C5. For a dictionary of technologies (no key twice), \<^verbatim>\<open>find_context\<close> returns
  at most one mention for each technology, and the mention of a technology is the context
  of the first candidate in the order of the specification: the variations in the order of
  their list, and for each variation its occurrences from left to right. What comes after
  that candidate, later variations and later occurrences, has no influence on the result.
\<close>

theorem first_occurrence_wins:
  assumes "distinct (keys technologies)"
    and "(primary_tech, variations) \<in> set technologies"
  shows "distinct (keys (find_context document technologies window))
         \<and> map_of (find_context document technologies window) primary_tech
             = map_option (\<lambda>(v, i). context_of document window (i, i + length v))
                 (first_occurrence document variations)"
proof -
  have "map_of (find_context document technologies window) primary_tech
          = map_option (context_of document window) (first_hit document variations)"
    using assms by (simp add: find_context_eq map_of_map_filter_mention)
  also have "\<dots> = map_option (\<lambda>(v, i). context_of document window (i, i + length v))
                 (first_occurrence document variations)"
    by (cases "first_occurrence document variations") (auto simp: first_hit_spec)
  finally show ?thesis
    using assms(1) by (simp add: find_context_eq distinct_map_filter_mention)
qed

theorem first_occurrence_wins_witness:
  "distinct (keys synonym_seed)
   \<and> (''iPhone'', [''iPhone'', ''iOS'']) \<in> set synonym_seed
   \<and> first_occurrence ''ios IPHONE.'' [''iPhone'', ''iOS''] = Some (''iPhone'', 4)
   \<and> map_of (find_context ''ios IPHONE.'' synonym_seed 2) ''iPhone''
       = Some ''s IPHONE.''"
proof -
  have f: "first_occurrence ''ios IPHONE.'' [''iPhone'', ''iOS''] = Some (''iPhone'', 4)"
    by code_simp
  have c: "context_of ''ios IPHONE.'' 2 (4, 4 + length ''iPhone'') = ''s IPHONE.''"
    by code_simp
  from first_occurrence_wins [OF distinct_keys_seed seed_iPhone, of "''ios IPHONE.''" 2]
  have "map_of (find_context ''ios IPHONE.'' synonym_seed 2) ''iPhone''
       = Some ''s IPHONE.''"
    unfolding f using c by simp
  then show ?thesis using distinct_keys_seed seed_iPhone f by blast
qed

text \<open>
  Claim C9. A technology none of whose variations occurs in the document has no entry in
  the mapping returned. \<^verbatim>\<open>find_context\<close> has no failing branch: it is a total function.
\<close>

theorem unmatched_entity_absent:
  assumes "distinct (keys technologies)"
    and "(primary_tech, variations) \<in> set technologies"
    and "list_all (\<lambda>v. occurrences v document = []) variations"
  shows "primary_tech \<notin> set (keys (find_context document technologies window))
         \<and> map_of (find_context document technologies window) primary_tech = None"
proof -
  have "\<forall>v \<in> set variations. finditer v document = []"
    using assms(3) by (simp add: list_all_iff finditer_Nil)
  then have "first_hit document variations = None" by (rule first_hit_None)
  then have "primary_tech \<notin> set (keys (find_context document technologies window))"
    using mem_keys_find_context [OF assms(1,2)] by simp
  then show ?thesis by (simp add: map_of_eq_None_iff keys_def)
qed

theorem unmatched_entity_absent_witness:
  "distinct (keys synonym_seed)
   \<and> (''Mac'', [''Mac'', ''macOS'', ''MacBook'']) \<in> set synonym_seed
   \<and> list_all (\<lambda>v. occurrences v ''ios IPHONE.'' = []) [''Mac'', ''macOS'', ''MacBook'']
   \<and> ''Mac'' \<notin> set (keys (find_context ''ios IPHONE.'' synonym_seed 2))"
proof -
  have h: "list_all (\<lambda>v. occurrences v ''ios IPHONE.'' = []) [''Mac'', ''macOS'', ''MacBook'']"
    by code_simp
  from unmatched_entity_absent [OF distinct_keys_seed seed_Mac h]
  show ?thesis using distinct_keys_seed seed_Mac h by blast
qed

text \<open>
  Claim C6. For a window radius that is not negative, every context returned is the slice
  of the document from \<open>max(0, start - window)\<close> to \<open>min(len(document), end + window)\<close>
  of a match of a variation of its technology: the bounds lie within the document, the
  lower one is not negative, and the length is at most twice the window plus the length of
  the variation.
\<close>

theorem context_window_clipped:
  assumes "0 \<le> window"
    and "(primary_tech, context) \<in> set (find_context document technologies window)"
  shows "\<exists>variations variation i.
           (primary_tech, variations) \<in> set technologies \<and> variation \<in> set variations
           \<and> match_at variation document i
           \<and> (let lo = max 0 (int i - window);
                   hi = min (int (length document)) (int (i + length variation) + window)
               in 0 \<le> lo \<and> lo \<le> hi \<and> hi \<le> int (length document)
                  \<and> context = take (nat (hi - lo)) (drop (nat lo) document)
                  \<and> int (length context) = hi - lo
                  \<and> int (length context) \<le> 2 * window + int (length variation))"
proof -
  from find_context_origin [OF assms(2)] obtain vs v i where
    o: "(primary_tech, vs) \<in> set technologies" "v \<in> set vs" "match_at v document i"
       "context = context_of document window (i, i + length v)" by blast
  from o(3) have "i + length v \<le> length document" by (simp add: match_at_def)
  from context_of_clipped [OF assms(1) this] o(4)
  have "(let lo = max 0 (int i - window);
             hi = min (int (length document)) (int (i + length v) + window)
         in 0 \<le> lo \<and> lo \<le> hi \<and> hi \<le> int (length document)
            \<and> context = take (nat (hi - lo)) (drop (nat lo) document)
            \<and> int (length context) = hi - lo
            \<and> int (length context) \<le> 2 * window + int (length v))"
    by (simp add: Let_def)
  with o(1,2,3) show ?thesis by blast
qed

theorem context_window_clipped_witness:
  "(0::int) \<le> 2
   \<and> (''iPad'', ''ios I'') \<in> set (find_context ''ios IPHONE.'' synonym_seed 2)
   \<and> (\<exists>variations variation i.
           (''iPad'', variations) \<in> set synonym_seed \<and> variation \<in> set variations
           \<and> match_at variation ''ios IPHONE.'' i
           \<and> (let lo = max 0 (int i - 2);
                   hi = min (int (length ''ios IPHONE.'')) (int (i + length variation) + 2)
               in 0 \<le> lo \<and> lo \<le> hi \<and> hi \<le> int (length ''ios IPHONE.'')
                  \<and> ''ios I'' = take (nat (hi - lo)) (drop (nat lo) ''ios IPHONE.'')
                  \<and> int (length ''ios I'') = hi - lo
                  \<and> int (length ''ios I'') \<le> 2 * 2 + int (length variation)))"
proof -
  have h1: "(0::int) \<le> 2" by simp
  have h2: "(''iPad'', ''ios I'') \<in> set (find_context ''ios IPHONE.'' synonym_seed 2)"
    by (simp add: eval_find_context_ios)
  from context_window_clipped [OF h1 h2] show ?thesis using h1 h2 by blast
qed

text \<open>
  Claim C10. Every key of the mapping returned is a key of the dictionary of technologies,
  and every value is a contiguous part of the document, for every window. The document and
  the dictionary are only read by \<^verbatim>\<open>find_context\<close>, which has no assignment to either; so
  they are arguments of the function and no part of its result.
\<close>

theorem mention_key_and_substring:
  assumes "(primary_tech, context) \<in> set (find_context document technologies window)"
  shows "primary_tech \<in> set (keys technologies)
         \<and> (\<exists>before after. document = before @ context @ after)"
proof -
  from find_context_origin [OF assms] obtain vs v i where
    o: "(primary_tech, vs) \<in> set technologies" "v \<in> set vs" "match_at v document i"
       "context = context_of document window (i, i + length v)" by blast
  have "primary_tech \<in> set (keys technologies)" using o(1) by (force simp: keys_def)
  moreover have "\<exists>before after. document = before @ context @ after"
    unfolding o(4) context_of_def Let_def by (rule py_slice_sublist)
  ultimately show ?thesis by blast
qed

theorem mention_key_and_substring_witness:
  "(''iPhone'', ''s IPHONE.'') \<in> set (find_context ''ios IPHONE.'' synonym_seed 2)
   \<and> ''iPhone'' \<in> set (keys synonym_seed)
   \<and> (\<exists>before after. ''ios IPHONE.'' = before @ ''s IPHONE.'' @ after)"
proof -
  have h: "(''iPhone'', ''s IPHONE.'') \<in> set (find_context ''ios IPHONE.'' synonym_seed 2)"
    by (simp add: eval_find_context_ios)
  from mention_key_and_substring [OF h] show ?thesis using h by blast
qed

section \<open>Whole-word matching\<close>

lemma strip_ends:
  assumes "strip s \<noteq> []"
  shows "\<not> is_space (hd (strip s)) \<and> \<not> is_space (last (strip s)) \<and> set (strip s) \<subseteq> set s"
proof -
  define a where "a = dropWhile is_space s"
  define b where "b = dropWhile is_space (rev a)"
  have s: "strip s = rev b" by (simp add: strip_def a_def b_def)
  with assms have b: "b \<noteq> []" by simp
  then have a: "a \<noteq> []" unfolding b_def by auto
  have "\<not> is_space (hd b)" using b unfolding b_def by (rule hd_dropWhile)
  then have l: "\<not> is_space (last (strip s))" using b by (simp add: s last_rev)
  have "rev a = takeWhile is_space (rev a) @ b" by (simp add: b_def)
  then have "last (rev a) = last b" using b by (metis last_appendR)
  then have "last b = hd a" using a by (simp add: last_rev)
  moreover have "\<not> is_space (hd a)" using a unfolding a_def by (rule hd_dropWhile)
  ultimately have h: "\<not> is_space (hd (strip s))" using b by (simp add: s hd_rev)
  have "set b \<subseteq> set a" unfolding b_def using set_dropWhileD by fastforce
  moreover have "set a \<subseteq> set s" unfolding a_def using set_dropWhileD by fastforce
  ultimately have "set (strip s) \<subseteq> set s" by (simp add: s)
  with h l show ?thesis by blast
qed

lemma word_ends_normalize:
  assumes "normalize t \<noteq> []"
  shows "word_ends (normalize t)"
proof -
  let ?f = "filter (\<lambda>c. is_word c \<or> is_space c) t"
  have n: "normalize t = strip ?f" by (simp add: normalize_def)
  from strip_ends [of ?f] assms n
  have e: "\<not> is_space (hd (normalize t))" "\<not> is_space (last (normalize t))"
    "set (normalize t) \<subseteq> set ?f" by simp_all
  have "hd (normalize t) \<in> set (normalize t)" "last (normalize t) \<in> set (normalize t)"
    using assms by simp_all
  with e(3) have "is_word (hd (normalize t)) \<or> is_space (hd (normalize t))"
    "is_word (last (normalize t)) \<or> is_space (last (normalize t))" by auto
  with e(1,2) assms show ?thesis by (simp add: word_ends_def)
qed

lemma word_ends_seed: "(k, vs) \<in> set synonym_seed \<Longrightarrow> v \<in> set vs \<Longrightarrow> word_ends v"
  by (auto simp: synonym_seed_def word_ends_def is_word_def)

lemma word_ends_get_technologies:
  assumes "(k, vs) \<in> set (get_technologies column)" "v \<in> set vs"
  shows "word_ends v"
proof -
  from assms(1) consider (seed) "(k, vs) \<in> set synonym_seed"
    | (new) n where "vs = [n]" "n \<in> set (map normalize (tech_list column))" "n \<noteq> []"
    unfolding set_get_technologies by blast
  then show ?thesis
  proof cases
    case seed
    then show ?thesis using assms(2) by (rule word_ends_seed)
  next
    case new
    then obtain t where "n = normalize t" by auto
    with new assms(2) show ?thesis using word_ends_normalize by auto
  qed
qed

lemma first_hit_Some_iff: "first_hit doc vs \<noteq> None \<longleftrightarrow> (\<exists>v \<in> set vs. finditer v doc \<noteq> [])"
  by (induction vs) (auto split: list.splits)

lemma seed_in_get_technologies: "(k, vs) \<in> set synonym_seed \<Longrightarrow> (k, vs) \<in> set (get_technologies column)"
  by (simp add: set_get_technologies)

lemma get_technologies_Nil: "get_technologies [] = synonym_seed"
  by (simp add: get_technologies_def tech_list_def)

lemma eval_find_context_ipadding:
  "find_context ''Mac iPadding iOS'' synonym_seed 500
     = [(''Mac'', ''Mac iPadding iOS''), (''iPhone'', ''Mac iPadding iOS''),
        (''iPad'', ''Mac iPadding iOS'')]"
  by code_simp

text \<open>
  Claim C7, as amended. Matching is by whole words and without regard to case: for the map
  that \<^verbatim>\<open>get_technologies\<close> returns, a technology has a mention exactly when one of
  its variations stands in the document as a word of its own, no word character directly
  before or after it. So \<^verbatim>\<open>iPad\<close> inside \<^verbatim>\<open>iPadding\<close> is no match. The technology
  \<^verbatim>\<open>iPad\<close> has the variations \<^verbatim>\<open>iPad\<close> and \<^verbatim>\<open>iOS\<close>: it has a mention exactly when
  one of the two stands in the document as a word of its own.
\<close>

theorem whole_word_matching:
  assumes "(primary_tech, variations) \<in> set (get_technologies column)"
  shows "(primary_tech \<in> set (keys (find_context document (get_technologies column) window))
            \<longleftrightarrow> list_ex (\<lambda>v. standalone_word v document) variations)
         \<and> (''iPad'' \<in> set (keys (find_context document (get_technologies column) window))
            \<longleftrightarrow> standalone_word ''iPad'' document \<or> standalone_word ''iOS'' document)"
proof -
  have gen: "k \<in> set (keys (find_context document (get_technologies column) window))
            \<longleftrightarrow> list_ex (\<lambda>v. standalone_word v document) vs"
    if m: "(k, vs) \<in> set (get_technologies column)" for k vs
  proof -
    have "finditer v document \<noteq> [] \<longleftrightarrow> standalone_word v document" if "v \<in> set vs" for v
      using occurrences_standalone [OF word_ends_get_technologies [OF m that]]
      by (simp add: finditer_Nil)
    then have "first_hit document vs \<noteq> None \<longleftrightarrow> (\<exists>v \<in> set vs. standalone_word v document)"
      unfolding first_hit_Some_iff by blast
    then show ?thesis
      using mem_keys_find_context [OF distinct_keys_get_technologies m]
      by (simp add: list_ex_iff)
  qed
  have "(''iPad'', [''iPad'', ''iOS'']) \<in> set (get_technologies column)"
    using seed_iPad by (rule seed_in_get_technologies)
  from gen [OF this] gen [OF assms] show ?thesis by simp
qed

theorem whole_word_matching_witness:
  "(''iPad'', [''iPad'', ''iOS'']) \<in> set (get_technologies [])
   \<and> \<not> standalone_word ''iPad'' ''iPadding.''
   \<and> \<not> standalone_word ''iOS'' ''iPadding.''
   \<and> ''iPad'' \<notin> set (keys (find_context ''iPadding.'' (get_technologies []) 500))"
proof -
  have h: "(''iPad'', [''iPad'', ''iOS'']) \<in> set (get_technologies [])"
    using seed_iPad by (rule seed_in_get_technologies)
  have a: "\<not> standalone_word ''iPad'' ''iPadding.''" by code_simp
  have b: "\<not> standalone_word ''iOS'' ''iPadding.''" by code_simp
  from whole_word_matching [OF h, of "''iPadding.''" 500] a b
  have "''iPad'' \<notin> set (keys (find_context ''iPadding.'' (get_technologies []) 500))" by blast
  with h a b show ?thesis by blast
qed

text \<open>
  Claim C7 as stated fails for a document that holds \<^verbatim>\<open>iPadding\<close>, no \<^verbatim>\<open>iPad\<close> as a
  word of its own, and the alias \<^verbatim>\<open>iOS\<close>: the technology \<^verbatim>\<open>iPad\<close> has a mention.
\<close>

theorem alias_mentions_ipad:
  "\<not> standalone_word ''iPad'' ''Mac iPadding iOS''
   \<and> map_of (find_context ''Mac iPadding iOS'' (get_technologies []) 500) ''iPad''
       = Some ''Mac iPadding iOS''"
proof -
  have "\<not> standalone_word ''iPad'' ''Mac iPadding iOS''" by code_simp
  then show ?thesis by (simp add: get_technologies_Nil eval_find_context_ipadding)
qed

section \<open>A failing backend\<close>

lemma analyze_mentions_abort:
  assumes "\<forall>(t, c) \<in> set pre. analyze c t = Inr (result t c)"
    and "analyze context tech = Inl e"
  shows "analyze_mentions analyze (pre @ (tech, context) # post) printed
           = (printed @ map (\<lambda>(t, c). AnalysisOf t (result t c)) pre, Raised e)"
  using assms(1)
proof (induction pre arbitrary: printed)
  case Nil
  then show ?case using assms(2) by simp
next
  case (Cons m pre)
  obtain t c where m: "m = (t, c)" by (cases m)
  from Cons.prems m have "analyze c t = Inr (result t c)"
    and rest: "\<forall>(t, c) \<in> set pre. analyze c t = Inr (result t c)" by auto
  then show ?case using Cons.IH [OF rest, of "printed @ [AnalysisOf t (result t c)]"] m by simp
qed

lemma finbert_results_abort:
  assumes "(tech, context) \<in> set tech_mentions" "sentiment_of context = Inl e"
  shows "\<exists>e'. finbert_results sentiment_of tech_mentions analysis_results = Inl e'"
  using assms(1)
proof (induction tech_mentions arbitrary: analysis_results)
  case Nil
  then show ?case by simp
next
  case (Cons m ms)
  obtain t c where m: "m = (t, c)" by (cases m)
  show ?case
  proof (cases "sentiment_of c")
    case (Inl a)
    then show ?thesis using m by simp
  next
    case (Inr s)
    with Cons.prems m assms(2) have "(tech, context) \<in> set ms" by auto
    from Cons.IH [OF this] show ?thesis using Inr m by simp
  qed
qed

text \<open>
  Claim C3, as amended. Neither \<^verbatim>\<open>main\<close> catches an exception of the backend. When
  the backend raises for a technology with a mention, the exception leaves \<^verbatim>\<open>main\<close>: in
  \<^verbatim>\<open>main.py\<close> the analyses of the technologies before it have been printed and the
  failing one and all later ones have none; in \<^verbatim>\<open>finbert.py\<close> no table is printed.
\<close>

theorem backend_failure_aborts_run:
  assumes "find_context text (get_technologies column) 500 = pre @ (tech, context) # post"
    and "\<forall>(t, c) \<in> set pre. analyze c t = Inr (result t c)"
    and "analyze context tech = Inl e"
    and "sentiment_of context = Inl e'"
  shows "main (Some text) (Some column) analyze
           = (map (\<lambda>(t, c). AnalysisOf t (result t c)) pre, Raised e)
         \<and> (\<exists>e''. finbert_main (Some text) (Some column) sentiment_of = ([], Raised e''))"
proof -
  have ne: "find_context text (get_technologies column) 500 \<noteq> []"
    using assms(1) by simp
  have "analyze_mentions analyze (find_context text (get_technologies column) 500) []
          = (map (\<lambda>(t, c). AnalysisOf t (result t c)) pre, Raised e)"
    unfolding assms(1) using analyze_mentions_abort [OF assms(2,3), of post "[]"] by simp
  then have a: "main (Some text) (Some column) analyze
           = (map (\<lambda>(t, c). AnalysisOf t (result t c)) pre, Raised e)"
    using ne by (simp add: main_def Let_def)
  have "(tech, context) \<in> set (find_context text (get_technologies column) 500)"
    unfolding assms(1) by simp
  then have "\<exists>e''. finbert_results sentiment_of
                 (find_context text (get_technologies column) 500) [] = Inl e''"
    using assms(4) by (rule finbert_results_abort)
  then obtain e'' where
    "finbert_results sentiment_of (find_context text (get_technologies column) 500) [] = Inl e''"
    by blast
  then have "finbert_main (Some text) (Some column) sentiment_of = ([], Raised e'')"
    using ne by (simp add: finbert_main_def Let_def)
  with a show ?thesis by blast
qed

theorem backend_failure_aborts_run_witness:
  "find_context ''Mac iPadding iOS'' (get_technologies []) 500
     = [(''Mac'', ''Mac iPadding iOS'')] @ (''iPhone'', ''Mac iPadding iOS'') # [(''iPad'', ''Mac iPadding iOS'')]
   \<and> failing_for ''iPhone'' ''Mac iPadding iOS'' ''iPhone'' = Inl ()
   \<and> failing_context ''Mac iPadding iOS'' ''Mac iPadding iOS'' = Inl ()
   \<and> main (Some ''Mac iPadding iOS'') (Some []) (failing_for ''iPhone'')
       = ([AnalysisOf ''Mac'' ''Neutral''], Raised ())
   \<and> finbert_main (Some ''Mac iPadding iOS'') (Some []) (failing_context ''Mac iPadding iOS'')
       = ([], Raised ())"
proof -
  have h1: "find_context ''Mac iPadding iOS'' (get_technologies []) 500
     = [(''Mac'', ''Mac iPadding iOS'')] @ (''iPhone'', ''Mac iPadding iOS'') # [(''iPad'', ''Mac iPadding iOS'')]"
    by (simp add: get_technologies_Nil eval_find_context_ipadding)
  have h2: "\<forall>(t, c) \<in> set [(''Mac'', ''Mac iPadding iOS'')].
              failing_for ''iPhone'' c t = Inr ((\<lambda>t c. ''Neutral'') t c)"
    by (simp add: failing_for_def)
  have h3: "failing_for ''iPhone'' ''Mac iPadding iOS'' ''iPhone'' = Inl ()"
    by (simp add: failing_for_def)
  have h4: "failing_context ''Mac iPadding iOS'' ''Mac iPadding iOS'' = Inl ()"
    by (simp add: failing_context_def)
  from backend_failure_aborts_run
         [where analyze = "failing_for ''iPhone''" and result = "\<lambda>t c. ''Neutral''"
            and sentiment_of = "failing_context ''Mac iPadding iOS''", OF h1 h2 h3 h4]
    h1 h3 h4
  show ?thesis by simp
qed

text \<open>
  Claim C3 as stated fails: of three technologies with a mention, the backend raises for
  the second. The run of \<^verbatim>\<open>main.py\<close> ends with that exception after the first analysis,
  and the third technology is never analysed; the run of \<^verbatim>\<open>finbert.py\<close> ends with the
  exception and prints nothing.
\<close>

theorem failure_on_second_entity:
  "main (Some ''Mac iPadding iOS'') (Some []) (failing_for ''iPhone'')
     = ([AnalysisOf ''Mac'' ''Neutral''], Raised ())
   \<and> finbert_main (Some ''Mac iPadding iOS'') (Some []) (failing_context ''Mac iPadding iOS'')
     = ([], Raised ())"
  by (simp add: main_def finbert_main_def get_technologies_Nil eval_find_context_ipadding
      failing_for_def failing_context_def)

end
